theory Spec2Isabelle
  imports Main "HOL-Library.Sublist"
begin

section \<open>Token sequences, Python slices and the tokenizer boundary\<close>

text \<open>
  Token ids are non-negative integers. The tokenizer of \<^verbatim>\<open>lit_gpt\<close> is external to
  \<^verbatim>\<open>prepare_data.py\<close>: it is a parameter of every definition below, a record of its
  \<^verbatim>\<open>encode\<close> (text, bos, eos), its \<^verbatim>\<open>decode\<close> and its \<^verbatim>\<open>eos_id\<close>.
\<close>

type_synonym token = nat

datatype error = AssertionError | IndexError | NotImplementedError | ValueError | ArgumentError

record tokenizer =
  encode :: "string \<Rightarrow> bool \<Rightarrow> bool \<Rightarrow> token list"
  decode :: "token list \<Rightarrow> string"
  eos_id :: token

text \<open>\<^verbatim>\<open>xs[i:j]\<close> for indices that are not negative: the slice is clipped to the sequence.\<close>

definition py_slice :: "'a list \<Rightarrow> nat \<Rightarrow> nat \<Rightarrow> 'a list" where
  "py_slice xs i j = take (j - i) (drop i xs)"

text \<open>
  \<^verbatim>\<open>xs[i]\<close> on a tensor, for any integer: a negative index counts from the end, an
  index out of range raises IndexError.
\<close>

definition py_get :: "'a list \<Rightarrow> int \<Rightarrow> error + 'a" where
  "py_get xs i =
     (if 0 \<le> i \<and> i < int (length xs) then Inr (xs ! nat i)
      else if i < 0 \<and> - int (length xs) \<le> i then Inr (xs ! nat (int (length xs) + i))
      else Inl IndexError)"

text \<open>\<^verbatim>\<open>torch.where(selec == t)[0]\<close>: the indices that hold \<open>t\<close>, in increasing order.\<close>

definition where_eq :: "'a list \<Rightarrow> 'a \<Rightarrow> nat list" where
  "where_eq xs t = filter (\<lambda>i. xs ! i = t) [0..<length xs]"

text \<open>\<^verbatim>\<open>s.startswith(" ")\<close>.\<close>

definition startswith_space :: "string \<Rightarrow> bool" where
  "startswith_space s = (case s of [] \<Rightarrow> False | c # _ \<Rightarrow> c = CHR '' '')"

text \<open>\<^verbatim>\<open>np.pad(a, (0, n - len(a)), mode="constant", constant_values=v)\<close>.\<close>

definition pad_to :: "nat \<Rightarrow> token \<Rightarrow> token list \<Rightarrow> token list" where
  "pad_to n v a = a @ replicate (n - length a) v"

section \<open>Common prefix and suffix of token lists\<close>

text \<open>
  \<^verbatim>\<open>
  def common_prefix(lists):
      i = 0
      min_length = min([len(l) for l in lists])
      while i < min_length and all([l[i] == lists[0][i] for l in lists[1:]]):
          i += 1
      return lists[0][:i]
  \<close>
  \<^verbatim>\<open>min\<close> of an empty list raises ValueError.
\<close>

function common_prefix_loop :: "'a list list \<Rightarrow> nat \<Rightarrow> nat \<Rightarrow> nat" where
  "common_prefix_loop lsts min_length i =
     (if i < min_length \<and> list_all (\<lambda>l. l ! i = hd lsts ! i) (tl lsts)
      then common_prefix_loop lsts min_length (i + 1)
      else i)"
  by pat_completeness auto
termination
  by (relation "measure (\<lambda>(lsts, min_length, i). min_length - i)") auto

definition common_prefix :: "'a list list \<Rightarrow> error + 'a list" where
  "common_prefix lsts =
     (if lsts = [] then Inl ValueError
      else let min_length = min_list (map length lsts)
           in Inr (take (common_prefix_loop lsts min_length 0) (hd lsts)))"

text \<open>\<^verbatim>\<open>return common_prefix([l[::-1] for l in lists])[::-1]\<close>\<close>

definition common_suffix :: "'a list list \<Rightarrow> error + 'a list" where
  "common_suffix lsts =
     (case common_prefix (map rev lsts) of
        Inl e \<Rightarrow> Inl e
      | Inr p \<Rightarrow> Inr (rev p))"

section \<open>Tokens around the tags of turns\<close>

text \<open>
  The block of \<^verbatim>\<open>prepare_fn\<close> under \<^verbatim>\<open>if cut_around_turns:\<close>. The two
  assertions on the lengths come first, then the two on the decoded strings (prefix
  before suffix), then the test that raises NotImplementedError.
\<close>

definition tag_tokens_of :: "tokenizer \<Rightarrow> token list list" where
  "tag_tokens_of tk =
     map (\<lambda>s. encode tk s False False) [''[speaker001:]'', ''[Intervenant 1:]'', ''[A:]'']"

definition resolve_tag_tokens :: "tokenizer \<Rightarrow> error + (token \<times> token)" where
  "resolve_tag_tokens tk =
     (let tag_tokens = tag_tokens_of tk in
      case common_prefix tag_tokens of
        Inl e \<Rightarrow> Inl e
      | Inr tag_tokens_prefix \<Rightarrow>
     (case common_suffix tag_tokens of
        Inl e \<Rightarrow> Inl e
      | Inr tag_tokens_suffix \<Rightarrow>
          if \<not> length tag_tokens_prefix > 0 then Inl AssertionError
          else if \<not> length tag_tokens_suffix > 0 then Inl AssertionError
          else if decode tk tag_tokens_prefix \<noteq> ''['' then Inl AssertionError
          else if decode tk tag_tokens_suffix \<noteq> '':]'' then Inl AssertionError
          else if length tag_tokens_prefix > 1 \<or> length tag_tokens_suffix > 1
               then Inl NotImplementedError
          else Inr (tag_tokens_prefix ! 0, tag_tokens_suffix ! 0)))"

section \<open>The chunking loop of \<^verbatim>\<open>prepare_fn\<close>\<close>

record params =
  effective_block_size :: nat
  padding :: bool
  cut_around_turns :: bool
  tag_token_prefix :: token
  tag_token_suffix :: token

datatype turn_case = Case_1_1 | Case_1_2 | Case_2

text \<open>
  What one iteration hands to \<^verbatim>\<open>builder.add_array\<close> is \<open>array\<close>. The other fields
  record the iteration: \<open>cursor\<close> and \<open>carried\<close> are the \<^verbatim>\<open>istart\<close> and the
  \<^verbatim>\<open>add_prefix\<close> it ran with, \<open>printed\<close> is the case that \<^verbatim>\<open>DEBUG_PRINT\<close> names
  (\<^verbatim>\<open>"=== Case 1.1 - "\<close>, \<^verbatim>\<open>"=== Case 1.2 - "\<close>, \<^verbatim>\<open>"=== Case 2 - "\<close>), if the
  iteration reached one.
\<close>

record emitted =
  cursor :: nat
  carried :: "token list"
  array :: "token list"
  printed :: "turn_case option"

text \<open>
  \<^verbatim>\<open>
  while not tokenizer.decode(torch.tensor(text_ids[istart], ...)).startswith(" "):
      istart -= 1
  \<close>
  The index may become negative, where the tensor is read from its end, and raises
  IndexError below \<open>- len(text_ids)\<close>.
\<close>

function avoid_mid_word :: "tokenizer \<Rightarrow> token list \<Rightarrow> int \<Rightarrow> error + int" where
  "avoid_mid_word tk text_ids istart =
     (case py_get text_ids istart of
        Inl e \<Rightarrow> Inl e
      | Inr t \<Rightarrow>
          if \<not> startswith_space (decode tk [t])
          then avoid_mid_word tk text_ids (istart - 1)
          else Inr istart)"
  by pat_completeness auto
termination
  by (relation "measure (\<lambda>(tk, text_ids, istart). nat (istart + int (length text_ids) + 1))")
     (auto simp: py_get_def Let_def split: if_splits)

text \<open>
  \<^verbatim>\<open>
  istart += effective_block_size
  if istart < len(text_ids):
      # Avoid to cut in the middle of a word
      while not ...: istart -= 1
  \<close>
  as Case 1.2 and Case 2 both have it.
\<close>

definition advance_block :: "params \<Rightarrow> tokenizer \<Rightarrow> token list \<Rightarrow> nat \<Rightarrow> error + int" where
  "advance_block p tk text_ids istart =
     (let istart' = int istart + int (effective_block_size p)
      in if istart' < int (length text_ids) then avoid_mid_word tk text_ids istart'
         else Inr istart')"

text \<open>
  The part of an iteration after the segment is emitted, when \<^verbatim>\<open>cut_around_turns\<close>
  is set, from \<^verbatim>\<open>selec = text_ids[istart:iend+10]\<close> to the line before the final
  assertion: the case printed, if one is reached, and either the exception raised or the
  new \<^verbatim>\<open>istart\<close> and \<^verbatim>\<open>add_prefix\<close>.
\<close>

definition next_cursor ::
  "params \<Rightarrow> tokenizer \<Rightarrow> token list \<Rightarrow> nat \<Rightarrow> nat \<Rightarrow> token list
     \<Rightarrow> turn_case option \<times> (error + (int \<times> token list))" where
  "next_cursor p tk text_ids istart iend add_prefix =
     (let selec = py_slice text_ids istart (iend + 10);
          candidates = where_eq selec (tag_token_suffix p)
      in if length candidates > 0 then
           (let end_of_turn = last candidates;
                candidates = where_eq (take end_of_turn selec) (tag_token_prefix p)
            in if \<not> length candidates > 0 then (None, Inl AssertionError)
               else
                 let start_of_turn = last candidates
                 in if start_of_turn > 0 then
                      (let istart' = int istart + int start_of_turn
                       in (Some Case_1_1,
                           case py_get text_ids istart' of
                             Inl e \<Rightarrow> Inl e
                           | Inr t \<Rightarrow>
                               if t \<noteq> tag_token_prefix p then Inl AssertionError
                               else Inr (istart', [])))
                    else
                      (let add_prefix' = take (end_of_turn + 1) selec
                       in (Some Case_1_2,
                           case advance_block p tk text_ids istart of
                             Inl e \<Rightarrow> Inl e
                           | Inr istart' \<Rightarrow> Inr (istart', add_prefix'))))
         else
           (Some Case_2,
            case advance_block p tk text_ids istart of
              Inl e \<Rightarrow> Inl e
            | Inr istart' \<Rightarrow> Inr (istart', add_prefix)))"

text \<open>
  One iteration of \<^verbatim>\<open>while istart < len(text_ids)\<close>. \<open>Done\<close> leaves the loop: by
  \<^verbatim>\<open>break\<close> (nothing emitted, no error), or by an exception, after the segment was
  handed to the builder when it is raised behind \<^verbatim>\<open>builder.add_array\<close>.
\<close>

datatype step = Done "emitted list" "error option" | Next emitted nat "token list"

definition chunk_step ::
  "params \<Rightarrow> tokenizer \<Rightarrow> token list \<Rightarrow> nat \<Rightarrow> token list \<Rightarrow> step" where
  "chunk_step p tk text_ids istart add_prefix =
     (let iend = int istart + int (effective_block_size p) - int (length add_prefix)
      in if \<not> iend > int istart then Done [] (Some AssertionError)
         else
           let selec = py_slice text_ids istart (nat iend);
               selec = (if length add_prefix \<noteq> 0 then add_prefix @ selec else selec);
               a = selec
           in if \<not> cut_around_turns p \<and> length a \<le> 10 then Done [] None
              else
                let a = (if padding p \<and> length a < effective_block_size p
                         then pad_to (effective_block_size p) (eos_id tk) a else a);
                    em = \<lparr>cursor = istart, carried = add_prefix, array = a, printed = None\<rparr>
                in if \<not> cut_around_turns p
                   then Next em (istart + effective_block_size p) add_prefix
                   else
                     (case next_cursor p tk text_ids istart (nat iend) add_prefix of
                        (c, Inl e) \<Rightarrow> Done [em\<lparr>printed := c\<rparr>] (Some e)
                      | (c, Inr (istart', add_prefix')) \<Rightarrow>
                          if \<not> istart' > int istart
                          then Done [em\<lparr>printed := c\<rparr>] (Some AssertionError)
                          else Next (em\<lparr>printed := c\<rparr>) (nat istart') add_prefix'))"

function chunk_loop ::
  "params \<Rightarrow> tokenizer \<Rightarrow> token list \<Rightarrow> nat \<Rightarrow> token list \<Rightarrow> emitted list \<times> error option" where
  "chunk_loop p tk text_ids istart add_prefix =
     (if istart < length text_ids then
        (case chunk_step p tk text_ids istart add_prefix of
           Done ems err \<Rightarrow> (ems, err)
         | Next em istart' add_prefix' \<Rightarrow>
             (let r = chunk_loop p tk text_ids istart' add_prefix'
              in (em # fst r, snd r)))
      else ([], None))"
  by pat_completeness auto
termination
proof (relation "measure (\<lambda>(p, tk, text_ids, istart, add_prefix). length text_ids - istart)")
  show "wf (measure (\<lambda>(p, tk, text_ids, istart, add_prefix). length text_ids - istart))"
    by simp
next
  fix p :: params and tk :: tokenizer and text_ids :: "token list" and istart :: nat
    and add_prefix :: "token list" and em :: emitted and istart' :: nat
    and add_prefix' :: "token list"
  assume lt: "istart < length text_ids"
    and st: "chunk_step p tk text_ids istart add_prefix = Next em istart' add_prefix'"
  from st have "istart < istart'"
    by (auto simp: chunk_step_def Let_def split: if_splits sum.splits prod.splits)
  with lt show "((p, tk, text_ids, istart', add_prefix'), (p, tk, text_ids, istart, add_prefix))
      \<in> measure (\<lambda>(p, tk, text_ids, istart, add_prefix). length text_ids - istart)"
    by simp
qed

text \<open>
  The body of the loop over the variants of a text, from
  \<^verbatim>\<open>if effective_block_size and len(text_ids) > effective_block_size:\<close> on: the arrays
  handed to the builder, in order, and the exception that ended the run, if any.
\<close>

definition chunk_text ::
  "params \<Rightarrow> tokenizer \<Rightarrow> token list \<Rightarrow> token list list \<times> error option" where
  "chunk_text p tk text_ids =
     (if effective_block_size p \<noteq> 0 \<and> length text_ids > effective_block_size p then
        (let r = chunk_loop p tk text_ids 0 [] in (map array (fst r), snd r))
      else
        let a = text_ids;
            a = (if effective_block_size p \<noteq> 0 \<and> padding p \<and> length a < effective_block_size p
                 then pad_to (effective_block_size p) (eos_id tk) a else a)
        in ([a], None))"

section \<open>The text augmentation generator\<close>

text \<open>
  Modelled from the spec: \<^verbatim>\<open>augmented_texts_generator\<close> of \<^verbatim>\<open>utils/text.py\<close>, which
  \<^verbatim>\<open>prepare_data.py\<close> imports and the unit test calls, is not among the source files.
  The spec gives the generator as a producer of an ordered sequence without duplicates:
  variant 0 is the canonical level-0 normalization; every further candidate
  transformation is emitted unless its string was emitted already, in which case it is
  skipped and generation goes on with the next candidate; with a level \<open>L\<close> at most
  \<open>L + 1\<close> variants are emitted, with no level (\<^verbatim>\<open>None\<close>) all of them; a negative
  level is an ArgumentError. The normalization and the candidate transformations of a
  text (regular expressions, name pools and the random draws of one call) are parameters
  of the model. Calls with \<^verbatim>\<open>force_augmentation\<close> are not modelled: the spec does not
  determine the random transformation they add.
\<close>

record augmenter =
  normalize_text :: "string \<Rightarrow> string"
  transformations :: "string \<Rightarrow> string list"

text \<open>
  Modelled from the spec: the emission loop, with the number of variants that may still
  be emitted (no bound when \<open>None\<close>) and the strings emitted so far.
\<close>

fun emit_variants :: "nat option \<Rightarrow> string list \<Rightarrow> string list \<Rightarrow> string list" where
  "emit_variants budget seen [] = []"
| "emit_variants budget seen (c # cs) =
     (if budget = Some 0 then []
      else if c \<in> set seen then emit_variants budget seen cs
      else c # emit_variants (map_option (\<lambda>n. n - 1) budget) (seen @ [c]) cs)"

text \<open>Modelled from the spec: \<open>generate(text, level)\<close>.\<close>

definition generate :: "augmenter \<Rightarrow> string \<Rightarrow> int option \<Rightarrow> error + string list" where
  "generate aug text level =
     (case level of
        None \<Rightarrow> Inr (emit_variants None [] (normalize_text aug text # transformations aug text))
      | Some l \<Rightarrow>
          if l < 0 then Inl ArgumentError
          else Inr (emit_variants (Some (nat l + 1)) []
                      (normalize_text aug text # transformations aug text)))"

text \<open>
  Modelled from the spec: the maximum distinct-variant count of a text, the number of
  distinct strings among its candidate transformations that differ from its
  normalization.
\<close>

definition maximum_variants :: "augmenter \<Rightarrow> string \<Rightarrow> nat" where
  "maximum_variants aug text =
     card (set (transformations aug text) - {normalize_text aug text})"

text \<open>An augmenter for the examples: two of its three candidates repeat earlier strings.\<close>

definition aug_example :: augmenter where
  "aug_example =
     \<lparr>normalize_text = (\<lambda>t. ''[Intervenant 1:] '' @ t),
      transformations = (\<lambda>t. [''[Intervenant 1:] '' @ t, ''[A:] '' @ t, ''[A:] '' @ t])\<rparr>"

section \<open>Example tokenizers and inputs\<close>

text \<open>
  A tokenizer that gives the opening and the closing of a tag one token each (91 and 93),
  whose token 7 decodes to a string with no space in front and whose other tokens decode
  to a word with a space in front; and one whose tag renderings share the two tokens
  91, 4 at their start.
\<close>

definition tk_single :: tokenizer where
  "tk_single =
     \<lparr>encode = (\<lambda>s b e. if s = ''[speaker001:]'' then [91, 7, 93]
                         else if s = ''[Intervenant 1:]'' then [91, 8, 6, 93]
                         else [91, 5, 93]),
      decode = (\<lambda>ts. if ts = [91] then ''['' else if ts = [93] then '':]''
                     else if ts = [7] then ''a'' else '' w''),
      eos_id = 0\<rparr>"

definition p_turn :: params where
  "p_turn = \<lparr>effective_block_size = 4, padding = True, cut_around_turns = True,
              tag_token_prefix = 91, tag_token_suffix = 93\<rparr>"

definition p_naive :: params where
  "p_naive = \<lparr>effective_block_size = 12, padding = True, cut_around_turns = False,
               tag_token_prefix = 91, tag_token_suffix = 93\<rparr>"

definition tk_multi :: tokenizer where
  "tk_multi =
     \<lparr>encode = (\<lambda>s b e. if s = ''[speaker001:]'' then [91, 4, 7, 93]
                         else if s = ''[Intervenant 1:]'' then [91, 4, 8, 93]
                         else [91, 4, 5, 93]),
      decode = (\<lambda>ts. if ts = [91] then ''['' else if ts = [93] then '':]'' else '' w''),
      eos_id = 0\<rparr>"

text \<open>
  A text of twenty tokens with a tag at its start and a second one at the indices 16
  and 17, and a text whose only token with a space in front is the first.
\<close>

definition tagged_text :: "token list" where
  "tagged_text = [91, 93, 5, 5, 5, 5, 5, 5, 5, 5, 5, 5, 5, 5, 5, 5, 91, 93, 5, 5]"

definition one_word_text :: "token list" where
  "one_word_text = [5, 7, 7, 7, 7, 7, 7]"

text \<open>
  Fourteen tokens with no tag, and nine tokens with one tag at the indices 6 and 7.
\<close>

definition plain_text :: "token list" where
  "plain_text = [21, 22, 23, 24, 25, 26, 27, 28, 29, 30, 31, 32, 33, 34]"

definition two_turn_text :: "token list" where
  "two_turn_text = [10, 11, 12, 13, 14, 15, 91, 93, 16]"

text \<open>
  A text whose only token with a space in front is the last, a text with none, and a
  text of seven tokens that opens with a tag and has no other.
\<close>

definition last_word_text :: "token list" where
  "last_word_text = [7, 7, 7, 7, 7, 7, 5]"

definition no_word_text :: "token list" where
  "no_word_text = [7, 7, 7, 7, 7, 7, 7]"

definition carried_tail_text :: "token list" where
  "carried_tail_text = [91, 93, 21, 22, 23, 24, 25]"

section \<open>Notions the properties are stated with\<close>

text \<open>
  The part of an emitted array that is neither the carried prefix nor padding: the slice
  \<^verbatim>\<open>text_ids[istart:iend]\<close> of its iteration.
\<close>

definition content :: "params \<Rightarrow> token list \<Rightarrow> emitted \<Rightarrow> token list" where
  "content p text_ids em =
     py_slice text_ids (cursor em) (cursor em + effective_block_size p - length (carried em))"

text \<open>The two \<^verbatim>\<open>np.pad\<close> lines of \<^verbatim>\<open>prepare_fn\<close>, applied to an array \<open>a\<close>.\<close>

definition padded :: "params \<Rightarrow> tokenizer \<Rightarrow> token list \<Rightarrow> token list" where
  "padded p tk a =
     (if padding p \<and> length a < effective_block_size p
      then pad_to (effective_block_size p) (eos_id tk) a else a)"

text \<open>
  The length of the final fragment that the loop leaves out when turn-aware cutting is
  disabled, for a block size \<open>B\<close> and \<open>L\<close> tokens to cut: the remainder of \<open>L\<close> by
  \<open>B\<close> when it is 10 or less, and nothing otherwise.
\<close>

definition short_tail :: "nat \<Rightarrow> nat \<Rightarrow> nat" where
  "short_tail B L = (if L mod B \<le> 10 then L mod B else 0)"

text \<open>What an iteration emitted, and whether it reached the end of the loop body.\<close>

fun step_emitted :: "step \<Rightarrow> emitted list" where
  "step_emitted (Done ems err) = ems"
| "step_emitted (Next em istart add_prefix) = [em]"

fun completes :: "step \<Rightarrow> bool" where
  "completes (Done ems err) = False"
| "completes (Next em istart add_prefix) = True"

section \<open>Texts that fit in one segment\<close>

text \<open>
  C5. A token sequence of length at most \<open>effective_block_size\<close> gives exactly one
  segment and no error. The segment is the sequence itself, followed, when padding is
  set and the sequence is strictly shorter, by copies of \<open>eos_id\<close> up to length
  \<open>effective_block_size\<close>; a sequence of exactly that length is emitted as it is.
\<close>

theorem single_segment:
  assumes "length text_ids \<le> effective_block_size p"
  shows "chunk_text p tk text_ids =
           ([if padding p \<and> length text_ids < effective_block_size p
             then text_ids @ replicate (effective_block_size p - length text_ids) (eos_id tk)
             else text_ids], None)
       \<and> length (if padding p \<and> length text_ids < effective_block_size p
                 then text_ids @ replicate (effective_block_size p - length text_ids) (eos_id tk)
                 else text_ids)
           = (if padding p then effective_block_size p else length text_ids)"
  using assms by (auto simp: chunk_text_def pad_to_def Let_def)

theorem single_segment_witness:
  "chunk_text \<lparr>effective_block_size = 5, padding = True, cut_around_turns = True,
                tag_token_prefix = 91, tag_token_suffix = 93\<rparr>
              \<lparr>encode = (\<lambda>s b e. []), decode = (\<lambda>ts. []), eos_id = 11\<rparr> [1, 2, 3]
     = ([[1, 2, 3, 11, 11]], None)
   \<and> chunk_text \<lparr>effective_block_size = 3, padding = True, cut_around_turns = True,
                tag_token_prefix = 91, tag_token_suffix = 93\<rparr>
              \<lparr>encode = (\<lambda>s b e. []), decode = (\<lambda>ts. []), eos_id = 11\<rparr> [1, 2, 3]
     = ([[1, 2, 3]], None)"
  using single_segment [of "[1, 2, 3]"
          "\<lparr>effective_block_size = 5, padding = True, cut_around_turns = True,
            tag_token_prefix = 91, tag_token_suffix = 93\<rparr>"
          "\<lparr>encode = (\<lambda>s b e. []), decode = (\<lambda>ts. []), eos_id = 11\<rparr>"]
        single_segment [of "[1, 2, 3]"
          "\<lparr>effective_block_size = 3, padding = True, cut_around_turns = True,
            tag_token_prefix = 91, tag_token_suffix = 93\<rparr>"
          "\<lparr>encode = (\<lambda>s b e. []), decode = (\<lambda>ts. []), eos_id = 11\<rparr>"]
  by (simp add: numeral_eq_Suc)

section \<open>The longest common prefix and suffix\<close>

declare common_prefix_loop.simps [simp del]

lemma common_prefix_loop_inv:
  assumes "i \<le> m"
    and "\<forall>j<i. \<forall>l\<in>set lsts. l ! j = hd lsts ! j"
  shows "i \<le> common_prefix_loop lsts m i \<and> common_prefix_loop lsts m i \<le> m
       \<and> (\<forall>j<common_prefix_loop lsts m i. \<forall>l\<in>set (tl lsts). l ! j = hd lsts ! j)
       \<and> (common_prefix_loop lsts m i < m \<longrightarrow>
            (\<exists>l\<in>set (tl lsts). l ! common_prefix_loop lsts m i \<noteq> hd lsts ! common_prefix_loop lsts m i))"
  using assms
proof (induction lsts m i rule: common_prefix_loop.induct)
  case (1 lsts m i)
  show ?case
  proof (cases "i < m \<and> list_all (\<lambda>l. l ! i = hd lsts ! i) (tl lsts)")
    case True
    have step: "\<forall>j<i + 1. \<forall>l\<in>set lsts. l ! j = hd lsts ! j"
    proof (intro allI impI ballI)
      fix j l assume j: "j < i + 1" and l: "l \<in> set lsts"
      show "l ! j = hd lsts ! j"
      proof (cases "j < i")
        case True
        with "1.prems" l show ?thesis by blast
      next
        case False
        with j have ji: "j = i" by simp
        from l have "lsts \<noteq> []" by auto
        then have "l = hd lsts \<or> l \<in> set (tl lsts)"
          using l by (cases lsts) auto
        with True ji show ?thesis by (auto simp: list_all_iff)
      qed
    qed
    from True have le: "i + 1 \<le> m" by simp
    have eq: "common_prefix_loop lsts m i = common_prefix_loop lsts m (i + 1)"
      using True by (subst common_prefix_loop.simps) simp
    from "1.IH"[OF True le step] show ?thesis
      unfolding eq by simp
  next
    case False
    then have eq: "common_prefix_loop lsts m i = i"
      by (subst common_prefix_loop.simps) auto
    have tl: "set (tl lsts) \<subseteq> set lsts"
      by (cases lsts) auto
    from False "1.prems" tl show ?thesis
      unfolding eq by (auto simp: list_all_iff)
  qed
qed

lemma min_list_le:
  assumes "l \<in> set ls"
  shows "min_list (map length ls) \<le> length l"
proof -
  from assms have "map length ls \<noteq> []" by auto
  then have "min_list (map length ls) = Min (set (map length ls))"
    by (rule min_list_Min)
  also have "\<dots> \<le> length l"
    using assms by (intro Min_le) auto
  finally show ?thesis .
qed

lemma min_list_ge:
  assumes "ls \<noteq> []" and "\<forall>l\<in>set ls. n \<le> length l"
  shows "n \<le> min_list (map length ls)"
proof -
  from assms(1) have ne: "map length ls \<noteq> []" by simp
  then have "min_list (map length ls) = Min (set (map length ls))"
    by (rule min_list_Min)
  moreover have "n \<le> Min (set (map length ls))"
    using assms ne by (subst Min_ge_iff) auto
  ultimately show ?thesis by simp
qed

lemma common_prefix_Inr:
  "lsts \<noteq> [] \<Longrightarrow> \<exists>p. common_prefix lsts = Inr p"
  by (simp add: common_prefix_def Let_def)

lemma common_prefix_is_prefix:
  assumes "common_prefix lsts = Inr p" and "l \<in> set lsts"
  shows "prefix p l"
proof -
  from assms have ne: "lsts \<noteq> []" by auto
  define m where "m = min_list (map length lsts)"
  define r where "r = common_prefix_loop lsts m 0"
  from assms ne have p: "p = take r (hd lsts)"
    by (simp add: common_prefix_def Let_def m_def r_def)
  have inv: "r \<le> m" "\<forall>j<r. \<forall>l\<in>set (tl lsts). l ! j = hd lsts ! j"
    using common_prefix_loop_inv[of 0 m lsts] by (simp_all add: r_def)
  have hdin: "hd lsts \<in> set lsts" using ne by simp
  have ml: "m \<le> length l" "m \<le> length (hd lsts)"
    using min_list_le assms(2) hdin by (auto simp: m_def)
  have "l = hd lsts \<or> l \<in> set (tl lsts)"
    using assms(2) ne by (cases lsts) auto
  then have agree: "\<forall>j<r. l ! j = hd lsts ! j"
    using inv(2) by auto
  have "take r l = take r (hd lsts)"
    using agree inv(1) ml by (intro nth_equalityI) auto
  then show ?thesis
    unfolding p by (metis take_is_prefix)
qed

lemma common_prefix_longest:
  assumes "common_prefix lsts = Inr p" and "lsts \<noteq> []" and "\<forall>l\<in>set lsts. prefix q l"
  shows "prefix q p"
proof -
  define m where "m = min_list (map length lsts)"
  define r where "r = common_prefix_loop lsts m 0"
  from assms have p: "p = take r (hd lsts)"
    by (simp add: common_prefix_def Let_def m_def r_def)
  have inv: "r \<le> m" "r < m \<longrightarrow> (\<exists>l\<in>set (tl lsts). l ! r \<noteq> hd lsts ! r)"
    using common_prefix_loop_inv[of 0 m lsts] by (simp_all add: r_def)
  have hdin: "hd lsts \<in> set lsts" using assms(2) by simp
  have tl: "set (tl lsts) \<subseteq> set lsts"
    by (cases lsts) auto
  have qm: "length q \<le> m"
    unfolding m_def using assms(2,3) by (intro min_list_ge) (auto dest: prefix_length_le)
  have "length q \<le> r"
  proof (rule ccontr)
    assume "\<not> length q \<le> r"
    then have rq: "r < length q" by simp
    with qm have "r < m" by simp
    with inv(2) obtain l where l: "l \<in> set (tl lsts)" "l ! r \<noteq> hd lsts ! r" by blast
    from l(1) tl assms(3) have "prefix q l" by blast
    then have a: "l ! r = q ! r" using rq by (auto simp: prefix_def nth_append)
    from hdin assms(3) have "prefix q (hd lsts)" by blast
    then have "hd lsts ! r = q ! r" using rq by (auto simp: prefix_def nth_append)
    with a l(2) show False by simp
  qed
  moreover from hdin assms(3) have "prefix q (hd lsts)" by blast
  ultimately show ?thesis
    unfolding p by (intro prefix_length_prefix[OF _ take_is_prefix]) (auto dest: prefix_length_le)
qed

lemma common_suffix_rev:
  "common_suffix lsts = map_sum id rev (common_prefix (map rev lsts))"
  by (simp add: common_suffix_def split: sum.splits)

text \<open>
  C8. For a collection of token lists that is not empty, \<open>common_prefix\<close> returns a
  list that is a prefix of every list of the collection and that every common prefix is
  a prefix of (so it is the longest one), \<open>common_suffix\<close> returns a list that is a
  suffix of every list and that every common suffix is a suffix of, and
  \<open>common_suffix\<close> is the reversal of \<open>common_prefix\<close> applied to the reversed lists.
\<close>

theorem common_prefix_suffix_longest:
  assumes "lsts \<noteq> []"
  shows "\<exists>p s. common_prefix lsts = Inr p \<and> common_suffix lsts = Inr s
           \<and> (\<forall>l\<in>set lsts. prefix p l)
           \<and> (\<forall>q. (\<forall>l\<in>set lsts. prefix q l) \<longrightarrow> prefix q p \<and> length q \<le> length p)
           \<and> (\<forall>l\<in>set lsts. suffix s l)
           \<and> (\<forall>q. (\<forall>l\<in>set lsts. suffix q l) \<longrightarrow> suffix q s \<and> length q \<le> length s)
           \<and> Inr s = map_sum id rev (common_prefix (map rev lsts))"
proof -
  from assms obtain p where p: "common_prefix lsts = Inr p"
    using common_prefix_Inr by blast
  from assms have "map rev lsts \<noteq> []" by simp
  then obtain r where r: "common_prefix (map rev lsts) = Inr r"
    using common_prefix_Inr by blast
  then have s: "common_suffix lsts = Inr (rev r)"
    by (simp add: common_suffix_def)
  have p1: "\<forall>l\<in>set lsts. prefix p l"
    using common_prefix_is_prefix[OF p] by blast
  have p2: "\<forall>q. (\<forall>l\<in>set lsts. prefix q l) \<longrightarrow> prefix q p \<and> length q \<le> length p"
    using common_prefix_longest[OF p assms] by (auto dest: prefix_length_le)
  have s1: "\<forall>l\<in>set lsts. suffix (rev r) l"
  proof
    fix l assume "l \<in> set lsts"
    then have "rev l \<in> set (map rev lsts)" by simp
    from common_prefix_is_prefix[OF r this] show "suffix (rev r) l"
      by (simp add: suffix_to_prefix)
  qed
  have s2: "\<forall>q. (\<forall>l\<in>set lsts. suffix q l) \<longrightarrow> suffix q (rev r) \<and> length q \<le> length (rev r)"
  proof (intro allI impI)
    fix q assume q: "\<forall>l\<in>set lsts. suffix q l"
    then have "\<forall>l\<in>set (map rev lsts). prefix (rev q) l"
      by (auto simp: suffix_to_prefix)
    from common_prefix_longest[OF r \<open>map rev lsts \<noteq> []\<close> this]
    have "prefix (rev q) r" .
    then show "suffix q (rev r) \<and> length q \<le> length (rev r)"
      by (auto simp: suffix_to_prefix dest: prefix_length_le)
  qed
  show ?thesis
    using p s p1 p2 s1 s2 r by (intro exI[of _ p] exI[of _ "rev r"]) simp
qed

theorem common_prefix_suffix_longest_witness:
  "common_prefix [[1, 2, 3], [1, 2, 4], [1, 5, 4::nat]] = Inr [1]
   \<and> common_suffix [[1, 2, 3], [1, 2, 4], [1, 5, 4::nat]] = Inr []
   \<and> common_suffix [[1, 2, 4], [5, 2, 4], [2, 4::nat]] = Inr [2, 4]"
proof -
  have ne: "[[1, 2, 3], [1, 2, 4], [1, 5, 4::nat]] \<noteq> []" by simp
  have a: "common_prefix [[1, 2, 3], [1, 2, 4], [1, 5, 4::nat]] = Inr [1]" by code_simp
  have b: "common_suffix [[1, 2, 3], [1, 2, 4], [1, 5, 4::nat]] = Inr []" by code_simp
  have c: "common_suffix [[1, 2, 4], [5, 2, 4], [2, 4::nat]] = Inr [2, 4]" by code_simp
  from common_prefix_suffix_longest[OF ne] a b c show ?thesis
    by blast
qed

section \<open>Resolution of the tag tokens\<close>

lemma tag_tokens_prefix_suffix:
  "\<exists>pre suf. common_prefix (tag_tokens_of tk) = Inr pre \<and> common_suffix (tag_tokens_of tk) = Inr suf"
proof -
  have ne: "tag_tokens_of tk \<noteq> []" by (simp add: tag_tokens_of_def)
  then have "map rev (tag_tokens_of tk) \<noteq> []" by simp
  then obtain r where "common_prefix (map rev (tag_tokens_of tk)) = Inr r"
    using common_prefix_Inr by blast
  then have "common_suffix (tag_tokens_of tk) = Inr (rev r)"
    by (simp add: common_suffix_def)
  with common_prefix_Inr[OF ne] show ?thesis by blast
qed

text \<open>
  C7, as amended. The common prefix and the common suffix of the three tag renderings
  always exist. The resolution succeeds exactly when each is a single token, the prefix
  decodes to \<open>[\<close> and the suffix to \<open>:]\<close>, and then it yields these two tokens. It
  raises AssertionError exactly when the prefix or the suffix is empty or does not decode
  to its literal, and NotImplementedError exactly when both are non-empty and decode to
  their literals and one of them has more than one token. It raises nothing else.
\<close>

theorem tag_resolution:
  "\<exists>pre suf. common_prefix (tag_tokens_of tk) = Inr pre
      \<and> common_suffix (tag_tokens_of tk) = Inr suf
      \<and> ((\<exists>a b. resolve_tag_tokens tk = Inr (a, b)) \<longleftrightarrow>
           length pre = 1 \<and> length suf = 1 \<and> decode tk pre = ''['' \<and> decode tk suf = '':]'')
      \<and> (\<forall>a b. resolve_tag_tokens tk = Inr (a, b) \<longrightarrow> pre = [a] \<and> suf = [b])
      \<and> (resolve_tag_tokens tk = Inl AssertionError \<longleftrightarrow>
           pre = [] \<or> suf = [] \<or> decode tk pre \<noteq> ''['' \<or> decode tk suf \<noteq> '':]'')
      \<and> (resolve_tag_tokens tk = Inl NotImplementedError \<longleftrightarrow>
           pre \<noteq> [] \<and> suf \<noteq> [] \<and> decode tk pre = ''['' \<and> decode tk suf = '':]''
           \<and> (length pre > 1 \<or> length suf > 1))
      \<and> resolve_tag_tokens tk \<noteq> Inl IndexError \<and> resolve_tag_tokens tk \<noteq> Inl ValueError"
proof -
  obtain pre suf where ps: "common_prefix (tag_tokens_of tk) = Inr pre"
      "common_suffix (tag_tokens_of tk) = Inr suf"
    using tag_tokens_prefix_suffix by blast
  have r: "resolve_tag_tokens tk =
      (if pre = [] \<or> suf = [] \<or> decode tk pre \<noteq> ''['' \<or> decode tk suf \<noteq> '':]''
       then Inl AssertionError
       else if length pre > 1 \<or> length suf > 1 then Inl NotImplementedError
       else Inr (pre ! 0, suf ! 0))"
    by (simp add: resolve_tag_tokens_def ps Let_def)
  have one: "\<And>xs. xs \<noteq> [] \<Longrightarrow> \<not> 1 < length xs \<Longrightarrow> xs = [xs ! 0]"
    by (case_tac xs) auto
  show ?thesis
    apply (rule exI[of _ pre], rule exI[of _ suf])
    apply (intro conjI ps)
    subgoal by (cases pre; cases suf) (auto simp: r split: if_splits)
    subgoal using one by (auto simp: r split: if_splits)
    subgoal by (simp add: r)
    subgoal by (simp add: r) blast
    subgoal by (simp add: r)
    subgoal by (simp add: r)
    done
qed

theorem tag_resolution_witness:
  "resolve_tag_tokens tk_single = Inr (91, 93)
   \<and> common_prefix (tag_tokens_of tk_single) = Inr [91]
   \<and> common_suffix (tag_tokens_of tk_single) = Inr [93]"
proof -
  have a: "resolve_tag_tokens tk_single = Inr (91, 93)" by code_simp
  have b: "common_prefix (tag_tokens_of tk_single) = Inr [91]" by code_simp
  have c: "common_suffix (tag_tokens_of tk_single) = Inr [93]" by code_simp
  from tag_resolution[of tk_single] a b c show ?thesis by blast
qed

text \<open>
  C7 as stated fails: a common prefix of more than one token that does not decode to
  \<open>[\<close> fails the assertion on the decoded string, which comes first, and not with
  NotImplementedError.
\<close>

theorem multi_token_counterexample:
  "common_prefix (tag_tokens_of tk_multi) = Inr [91, 4]
   \<and> length [91, 4 :: token] > 1
   \<and> resolve_tag_tokens tk_multi = Inl AssertionError
   \<and> resolve_tag_tokens tk_multi \<noteq> Inl NotImplementedError"
proof -
  have a: "common_prefix (tag_tokens_of tk_multi) = Inr [91, 4]" by code_simp
  have b: "resolve_tag_tokens tk_multi = Inl AssertionError" by code_simp
  from a b show ?thesis by simp
qed

section \<open>The shape of the emitted segments\<close>

declare chunk_loop.simps [simp del]
declare avoid_mid_word.simps [simp del]

lemma chunk_step_alt:
  "chunk_step p tk text_ids istart add_prefix =
     (if \<not> length add_prefix < effective_block_size p then Done [] (Some AssertionError)
      else
        let iend = istart + effective_block_size p - length add_prefix;
            a = add_prefix @ py_slice text_ids istart iend
        in if \<not> cut_around_turns p \<and> length a \<le> 10 then Done [] None
           else
             let em = \<lparr>cursor = istart, carried = add_prefix, array = padded p tk a,
                       printed = None\<rparr>
             in if \<not> cut_around_turns p
                then Next em (istart + effective_block_size p) add_prefix
                else
                  (case next_cursor p tk text_ids istart iend add_prefix of
                     (c, Inl e) \<Rightarrow> Done [em\<lparr>printed := c\<rparr>] (Some e)
                   | (c, Inr (istart', add_prefix')) \<Rightarrow>
                       if \<not> istart' > int istart
                       then Done [em\<lparr>printed := c\<rparr>] (Some AssertionError)
                       else Next (em\<lparr>printed := c\<rparr>) (nat istart') add_prefix'))"
proof (cases "length add_prefix < effective_block_size p")
  case False
  then show ?thesis by (simp add: chunk_step_def Let_def)
next
  case True
  then have n: "nat (int istart + int (effective_block_size p) - int (length add_prefix))
      = istart + effective_block_size p - length add_prefix"
    by simp
  have gt: "int istart + int (effective_block_size p) - int (length add_prefix) > int istart"
    using True by simp
  show ?thesis
    unfolding chunk_step_def Let_def padded_def n using True gt
    by (cases "add_prefix = []") (auto split: prod.splits sum.splits)
qed

lemma step_emitted_shape:
  assumes "em \<in> set (step_emitted (chunk_step p tk text_ids istart add_prefix))"
  shows "cursor em = istart \<and> carried em = add_prefix
       \<and> length add_prefix < effective_block_size p
       \<and> array em = padded p tk (add_prefix @ content p text_ids em)"
  using assms
  by (auto simp: chunk_step_alt Let_def content_def
           split: if_splits sum.splits prod.splits)

lemma step_Next_greater:
  assumes "chunk_step p tk text_ids istart add_prefix = Next em istart' add_prefix'"
  shows "istart < istart'"
  using assms
  by (auto simp: chunk_step_alt Let_def split: if_splits sum.splits prod.splits)

lemma loop_emitted_shape:
  assumes "em \<in> set (fst (chunk_loop p tk text_ids istart add_prefix))"
  shows "istart \<le> cursor em \<and> length (carried em) < effective_block_size p
       \<and> array em = padded p tk (carried em @ content p text_ids em)"
  using assms
proof (induction p tk text_ids istart add_prefix rule: chunk_loop.induct)
  case (1 p tk text_ids istart add_prefix)
  show ?case
  proof (cases "istart < length text_ids")
    case False
    with "1.prems" show ?thesis by (simp add: chunk_loop.simps)
  next
    case True
    show ?thesis
    proof (cases "chunk_step p tk text_ids istart add_prefix")
      case (Done ems err)
      with True "1.prems" have "em \<in> set (step_emitted (chunk_step p tk text_ids istart add_prefix))"
        by (simp add: chunk_loop.simps)
      from step_emitted_shape[OF this] show ?thesis by simp
    next
      case (Next em' istart' add_prefix')
      with True "1.prems" have
        "em = em' \<or> em \<in> set (fst (chunk_loop p tk text_ids istart' add_prefix'))"
        by (simp add: chunk_loop.simps Let_def)
      then show ?thesis
      proof
        assume "em = em'"
        with Next have "em \<in> set (step_emitted (chunk_step p tk text_ids istart add_prefix))"
          by simp
        from step_emitted_shape[OF this] show ?thesis by simp
      next
        assume "em \<in> set (fst (chunk_loop p tk text_ids istart' add_prefix'))"
        from "1.IH"[OF True Next this] step_Next_greater[OF Next] show ?thesis by simp
      qed
    qed
  qed
qed

lemma content_length: "length (content p text_ids em) \<le> effective_block_size p - length (carried em)"
  by (simp add: content_def py_slice_def)

lemma padded_length:
  "length a \<le> effective_block_size p \<Longrightarrow>
     length (padded p tk a) \<le> effective_block_size p
   \<and> (padding p \<longrightarrow> length (padded p tk a) = effective_block_size p)"
  by (auto simp: padded_def pad_to_def)

text \<open>
  C10. When a target length is set (\<open>effective_block_size\<close> is not 0), every array
  handed to the builder, in the single-segment path and in the loop, with or without a
  carried prefix, and also in a run that an exception ends, has length at most
  \<open>effective_block_size\<close>, and exactly \<open>effective_block_size\<close> when padding is set.
\<close>

theorem segment_length:
  assumes "0 < effective_block_size p"
    and "a \<in> set (fst (chunk_text p tk text_ids))"
  shows "length a \<le> effective_block_size p
       \<and> (padding p \<longrightarrow> length a = effective_block_size p)"
proof (cases "length text_ids > effective_block_size p")
  case True
  with assms obtain em where em: "em \<in> set (fst (chunk_loop p tk text_ids 0 []))"
      and a: "a = array em"
    by (auto simp: chunk_text_def Let_def)
  from loop_emitted_shape[OF em] have lt: "length (carried em) < effective_block_size p"
    and arr: "array em = padded p tk (carried em @ content p text_ids em)" by simp_all
  have "length (carried em @ content p text_ids em) \<le> effective_block_size p"
    using lt content_length[of p text_ids em] by simp
  from padded_length[OF this] show ?thesis
    unfolding a arr by simp
next
  case False
  with assms show ?thesis
    by (auto simp: chunk_text_def Let_def pad_to_def split: if_splits)
qed

theorem segment_length_witness:
  "0 < effective_block_size p_turn
   \<and> fst (chunk_text p_turn tk_single [10, 11, 12, 13, 14, 15, 91, 93, 16])
       = [[10, 11, 12, 13], [91, 93, 16, 0]]
   \<and> length [91, 93, 16, 0 :: token] \<le> effective_block_size p_turn
   \<and> padding p_turn \<and> length [91, 93, 16, 0 :: token] = effective_block_size p_turn"
proof -
  have e: "0 < effective_block_size p_turn" "padding p_turn"
    by (simp_all add: p_turn_def)
  have r: "fst (chunk_text p_turn tk_single [10, 11, 12, 13, 14, 15, 91, 93, 16])
       = [[10, 11, 12, 13], [91, 93, 16, 0]]"
    by code_simp
  then have m: "[91, 93, 16, 0] \<in> set (fst (chunk_text p_turn tk_single [10, 11, 12, 13, 14, 15, 91, 93, 16]))"
    by simp
  from segment_length[OF e(1) m] e r show ?thesis by blast
qed

section \<open>The lookahead and the cursor\<close>

lemma py_slice_length: "length (py_slice xs i j) = min (j - i) (length xs - i)"
  by (simp add: py_slice_def)

lemma py_slice_nth:
  assumes "k < length (py_slice xs i j)"
  shows "py_slice xs i j ! k = xs ! (i + k)"
proof -
  from assms have "k < min (j - i) (length xs - i)"
    by (simp add: py_slice_def)
  then have "k < j - i" "i \<le> length xs"
    by arith+
  then show ?thesis by (simp add: py_slice_def)
qed

lemma py_slice_set:
  "set (py_slice xs i j) = {xs ! k | k. i \<le> k \<and> k < j \<and> k < length xs}"
proof (intro set_eqI iffI)
  fix x assume "x \<in> set (py_slice xs i j)"
  then obtain k where k: "k < length (py_slice xs i j)" "py_slice xs i j ! k = x"
    by (auto simp: in_set_conv_nth)
  then have "x = xs ! (i + k)" "i + k < j" "i + k < length xs"
    by (auto simp: py_slice_nth py_slice_length)
  then show "x \<in> {xs ! k | k. i \<le> k \<and> k < j \<and> k < length xs}"
    by (intro CollectI exI[of _ "i + k"]) simp
next
  fix x assume "x \<in> {xs ! k | k. i \<le> k \<and> k < j \<and> k < length xs}"
  then obtain k where k: "x = xs ! k" "i \<le> k" "k < j" "k < length xs" by blast
  then have "k - i < length (py_slice xs i j)" unfolding py_slice_length by arith
  moreover from this k have "py_slice xs i j ! (k - i) = x" by (simp add: py_slice_nth)
  ultimately show "x \<in> set (py_slice xs i j)" by (auto simp: in_set_conv_nth)
qed

lemma where_eq_mem: "k \<in> set (where_eq xs t) \<longleftrightarrow> k < length xs \<and> xs ! k = t"
  by (auto simp: where_eq_def)

lemma where_eq_empty: "where_eq xs t = [] \<longleftrightarrow> t \<notin> set xs"
  by (auto simp: where_eq_def filter_empty_conv in_set_conv_nth)

lemma py_get_nat: "k < length xs \<Longrightarrow> py_get xs (int k) = Inr (xs ! k)"
  by (simp add: py_get_def Let_def)

lemma avoid_mid_word_found:
  assumes "0 \<le> i" and "i < int (length text_ids)"
    and "lo < j" and "j \<le> i" and "- 1 \<le> lo"
    and "startswith_space (decode tk [text_ids ! nat j])"
  shows "\<exists>k. avoid_mid_word tk text_ids i = Inr k \<and> lo < k \<and> k \<le> i"
  using assms
proof (induction tk text_ids i rule: avoid_mid_word.induct)
  case (1 tk text_ids i)
  from "1.prems" have g: "py_get text_ids i = Inr (text_ids ! nat i)"
    by (simp add: py_get_def Let_def)
  show ?case
  proof (cases "startswith_space (decode tk [text_ids ! nat i])")
    case True
    with g have "avoid_mid_word tk text_ids i = Inr i"
      by (subst avoid_mid_word.simps) simp
    with "1.prems" show ?thesis by simp
  next
    case False
    with "1.prems" have "j \<noteq> i" by auto
    with "1.prems" have a: "0 \<le> i - 1" "i - 1 < int (length text_ids)" "j \<le> i - 1"
      by simp_all
    from "1.IH"[OF g False a(1,2) "1.prems"(3) a(3) "1.prems"(5,6)]
    obtain k where "avoid_mid_word tk text_ids (i - 1) = Inr k" "lo < k" "k \<le> i - 1"
      by blast
    moreover from g False have "avoid_mid_word tk text_ids i = avoid_mid_word tk text_ids (i - 1)"
      by (subst avoid_mid_word.simps) simp
    ultimately show ?thesis by simp
  qed
qed

lemma avoid_mid_word_sound:
  assumes "avoid_mid_word tk text_ids i = Inr k"
  shows "k \<le> i \<and> (\<exists>t. py_get text_ids k = Inr t \<and> startswith_space (decode tk [t]))"
  using assms
proof (induction tk text_ids i rule: avoid_mid_word.induct)
  case (1 tk text_ids i)
  from "1.prems" obtain t where g: "py_get text_ids i = Inr t"
    by (subst (asm) avoid_mid_word.simps) (auto split: sum.splits)
  show ?case
  proof (cases "startswith_space (decode tk [t])")
    case True
    with g "1.prems" have "k = i"
      by (subst (asm) avoid_mid_word.simps) simp
    with g True show ?thesis by simp
  next
    case False
    with g "1.prems" have "avoid_mid_word tk text_ids (i - 1) = Inr k"
      by (subst (asm) avoid_mid_word.simps) simp
    from "1.IH"[OF g False this] show ?thesis by auto
  qed
qed

lemma advance_block_iff:
  assumes "0 < effective_block_size p"
  shows "(\<exists>k. advance_block p tk text_ids istart = Inr k \<and> int istart < k) \<longleftrightarrow>
         length text_ids \<le> istart + effective_block_size p
         \<or> (\<exists>j. istart < j \<and> j \<le> istart + effective_block_size p
                \<and> startswith_space (decode tk [text_ids ! j]))"
proof (cases "length text_ids \<le> istart + effective_block_size p")
  case True
  with assms show ?thesis by (simp add: advance_block_def Let_def)
next
  case False
  then have lt: "istart + effective_block_size p < length text_ids" by simp
  then have ab: "advance_block p tk text_ids istart
      = avoid_mid_word tk text_ids (int istart + int (effective_block_size p))"
    by (simp add: advance_block_def Let_def)
  show ?thesis
  proof
    assume "\<exists>k. advance_block p tk text_ids istart = Inr k \<and> int istart < k"
    then obtain k where k: "avoid_mid_word tk text_ids (int istart + int (effective_block_size p)) = Inr k"
        "int istart < k"
      using ab by auto
    from avoid_mid_word_sound[OF k(1)] obtain t where
      t: "k \<le> int istart + int (effective_block_size p)" "py_get text_ids k = Inr t"
         "startswith_space (decode tk [t])" by blast
    from k(2) t(1) lt have "py_get text_ids k = Inr (text_ids ! nat k)"
      by (simp add: py_get_def Let_def)
    with t have "startswith_space (decode tk [text_ids ! nat k])" by simp
    moreover from k(2) t(1) have "istart < nat k" "nat k \<le> istart + effective_block_size p"
      by simp_all
    ultimately show "length text_ids \<le> istart + effective_block_size p
         \<or> (\<exists>j. istart < j \<and> j \<le> istart + effective_block_size p
                \<and> startswith_space (decode tk [text_ids ! j]))"
      by blast
  next
    assume "length text_ids \<le> istart + effective_block_size p
         \<or> (\<exists>j. istart < j \<and> j \<le> istart + effective_block_size p
                \<and> startswith_space (decode tk [text_ids ! j]))"
    with False obtain j where j: "istart < j" "j \<le> istart + effective_block_size p"
        "startswith_space (decode tk [text_ids ! j])" by blast
    have "\<exists>k. avoid_mid_word tk text_ids (int istart + int (effective_block_size p)) = Inr k
           \<and> int istart < k \<and> k \<le> int istart + int (effective_block_size p)"
      using lt j by (intro avoid_mid_word_found[where j = "int j"]) simp_all
    with ab show "\<exists>k. advance_block p tk text_ids istart = Inr k \<and> int istart < k"
      by auto
  qed
qed


lemma next_cursor_Case_2:
  "fst (next_cursor p tk text_ids istart iend add_prefix) = Some Case_2 \<longleftrightarrow>
     tag_token_suffix p \<notin> set (py_slice text_ids istart (iend + 10))"
  using where_eq_empty[of "py_slice text_ids istart (iend + 10)" "tag_token_suffix p"]
  by (auto simp: next_cursor_def Let_def)

lemma last_where_eq:
  assumes "where_eq xs t \<noteq> []"
  shows "last (where_eq xs t) < length xs \<and> xs ! last (where_eq xs t) = t"
  using last_in_set[OF assms] by (simp add: where_eq_mem)

lemma next_cursor_Case_1_1:
  assumes "fst (next_cursor p tk text_ids istart iend add_prefix) = Some Case_1_1"
  shows "\<exists>istart'. snd (next_cursor p tk text_ids istart iend add_prefix) = Inr (istart', [])
           \<and> int istart < istart'"
proof -
  define selec where "selec = py_slice text_ids istart (iend + 10)"
  define e where "e = last (where_eq selec (tag_token_suffix p))"
  define s where "s = last (where_eq (take e selec) (tag_token_prefix p))"
  from assms have c: "where_eq (take e selec) (tag_token_prefix p) \<noteq> []" "0 < s"
    by (auto simp: next_cursor_def Let_def selec_def e_def s_def split: if_splits)
  from last_where_eq[OF c(1)] have "s < length (take e selec)" "take e selec ! s = tag_token_prefix p"
    by (simp_all add: s_def)
  then have "s < length selec" "selec ! s = tag_token_prefix p"
    by simp_all
  then have "istart + s < length text_ids" "text_ids ! (istart + s) = tag_token_prefix p"
    unfolding selec_def by (auto simp: py_slice_nth py_slice_length)
  then have "py_get text_ids (int istart + int s) = Inr (tag_token_prefix p)"
    using py_get_nat[of "istart + s" text_ids] by simp
  with assms c show ?thesis
    by (auto simp: next_cursor_def Let_def selec_def e_def s_def split: if_splits)
qed

lemma next_cursor_advance:
  assumes "fst (next_cursor p tk text_ids istart iend add_prefix) = Some Case_1_2
         \<or> fst (next_cursor p tk text_ids istart iend add_prefix) = Some Case_2"
  shows "\<exists>add_prefix'. snd (next_cursor p tk text_ids istart iend add_prefix) =
           (case advance_block p tk text_ids istart of
              Inl e \<Rightarrow> Inl e | Inr istart' \<Rightarrow> Inr (istart', add_prefix'))"
  using assms by (auto simp: next_cursor_def Let_def split: if_splits)

lemma next_cursor_None:
  assumes "fst (next_cursor p tk text_ids istart iend add_prefix) = None"
  shows "snd (next_cursor p tk text_ids istart iend add_prefix) = Inl AssertionError"
  using assms by (auto simp: next_cursor_def Let_def split: if_splits)

lemma turn_step:
  assumes "cut_around_turns p" and "length add_prefix < effective_block_size p"
  shows "\<exists>em. step_emitted (chunk_step p tk text_ids istart add_prefix) = [em]
      \<and> printed em = fst (next_cursor p tk text_ids istart
                            (istart + effective_block_size p - length add_prefix) add_prefix)
      \<and> (completes (chunk_step p tk text_ids istart add_prefix) \<longleftrightarrow>
           (\<exists>istart' add_prefix'.
              snd (next_cursor p tk text_ids istart
                     (istart + effective_block_size p - length add_prefix) add_prefix)
                = Inr (istart', add_prefix') \<and> int istart < istart'))"
  using assms
  by (auto simp: chunk_step_alt Let_def split: prod.splits sum.splits)


text \<open>
  C3, as amended. An iteration with turn-aware cutting that passes the assertion
  \<^verbatim>\<open>iend > istart\<close> emits one segment, and it takes Case 2 (no closing tag found)
  exactly when no index \<open>i\<close> of the sequence with
  \<open>istart \<le> i < istart + effective_block_size - len(add_prefix) + 10\<close> holds the suffix
  token: the search covers \<^verbatim>\<open>[istart, iend + 10)\<close>, ten tokens past the end of the
  window that was emitted, which is \<open>[istart, istart + effective_block_size + 10)\<close>
  only when no prefix is carried.
\<close>

theorem lookahead_window:
  assumes "cut_around_turns p" and "length add_prefix < effective_block_size p"
  shows "\<exists>em. step_emitted (chunk_step p tk text_ids istart add_prefix) = [em]
      \<and> (printed em = Some Case_2 \<longleftrightarrow>
           (\<forall>i. istart \<le> i \<and> i < istart + effective_block_size p - length add_prefix + 10
                \<and> i < length text_ids \<longrightarrow> text_ids ! i \<noteq> tag_token_suffix p))"
proof -
  from turn_step[OF assms] obtain em where
    em: "step_emitted (chunk_step p tk text_ids istart add_prefix) = [em]"
        "printed em = fst (next_cursor p tk text_ids istart
                            (istart + effective_block_size p - length add_prefix) add_prefix)"
    by blast
  have "printed em = Some Case_2 \<longleftrightarrow>
      tag_token_suffix p \<notin> set (py_slice text_ids istart
         (istart + effective_block_size p - length add_prefix + 10))"
    unfolding em(2) by (rule next_cursor_Case_2)
  also have "\<dots> \<longleftrightarrow> (\<forall>i. istart \<le> i \<and> i < istart + effective_block_size p - length add_prefix + 10
                \<and> i < length text_ids \<longrightarrow> text_ids ! i \<noteq> tag_token_suffix p)"
    unfolding py_slice_set by auto
  finally show ?thesis using em(1) by blast
qed

theorem lookahead_window_witness:
  "cut_around_turns p_turn \<and> length [91, 93 :: token] < effective_block_size p_turn
   \<and> (\<exists>em. step_emitted (chunk_step p_turn tk_single tagged_text 4 [91, 93]) = [em]
          \<and> printed em = Some Case_2)
   \<and> tag_token_suffix p_turn \<notin> set (py_slice tagged_text 4 (4 + 4 - 2 + 10))"
proof -
  have h: "cut_around_turns p_turn" "length [91, 93 :: token] < effective_block_size p_turn"
    by (simp_all add: p_turn_def)
  have s: "step_emitted (chunk_step p_turn tk_single tagged_text 4 [91, 93])
      = [\<lparr>cursor = 4, carried = [91, 93], array = [91, 93, 5, 5], printed = Some Case_2\<rparr>]"
    by code_simp
  have n: "tag_token_suffix p_turn \<notin> set (py_slice tagged_text 4 (4 + 4 - 2 + 10))"
    by code_simp
  from lookahead_window[OF h, of tk_single tagged_text 4] h s n show ?thesis
    by auto
qed

text \<open>
  C3 as stated fails. In the run below the iteration at cursor 4 carries the two tokens
  of a tag; the suffix token sits at index 17, inside \<open>[4, 4 + 4 + 10)\<close>, and the
  iteration still takes Case 2: it searched \<open>[4, 16)\<close>.
\<close>

theorem lookahead_counterexample:
  "map (\<lambda>em. (cursor em, carried em, printed em))
       (fst (chunk_loop p_turn tk_single tagged_text 0 []))
     = [(0, [], Some Case_1_2), (4, [91, 93], Some Case_2),
        (8, [91, 93], Some Case_1_1), (16, [], Some Case_1_2)]
   \<and> tagged_text ! 17 = tag_token_suffix p_turn
   \<and> (4 :: nat) \<le> 17 \<and> (17 :: nat) < 4 + effective_block_size p_turn + 10"
  by code_simp

lemma loop_cursor_sorted:
  "sorted_wrt (<) (map cursor (fst (chunk_loop p tk text_ids istart add_prefix)))"
proof (induction p tk text_ids istart add_prefix rule: chunk_loop.induct)
  case (1 p tk text_ids istart add_prefix)
  show ?case
  proof (cases "istart < length text_ids")
    case False
    then show ?thesis by (simp add: chunk_loop.simps)
  next
    case True
    show ?thesis
    proof (cases "chunk_step p tk text_ids istart add_prefix")
      case (Done ems err)
      then have "length ems \<le> 1"
        by (auto simp: chunk_step_alt Let_def split: if_splits prod.splits sum.splits)
      then have "sorted_wrt (<) (map cursor ems)"
        by (cases ems) auto
      with True Done show ?thesis by (simp add: chunk_loop.simps)
    next
      case (Next em istart' add_prefix')
      then have "em \<in> set (step_emitted (chunk_step p tk text_ids istart add_prefix))"
        by simp
      from step_emitted_shape[OF this] have c: "cursor em = istart" by simp
      have "\<forall>em' \<in> set (fst (chunk_loop p tk text_ids istart' add_prefix')). istart < cursor em'"
        using loop_emitted_shape step_Next_greater[OF Next] by fastforce
      with "1.IH"[OF True Next] c True Next show ?thesis
        by (simp add: chunk_loop.simps Let_def)
    qed
  qed
qed

text \<open>
  When an iteration completes. An iteration that reaches the end of the loop body leaves
  \<^verbatim>\<open>istart\<close> strictly greater than it found it, so the cursors of the segments of a
  run strictly increase. Without turn-aware cutting every iteration that emits a segment
  completes. With it, an iteration that passes \<^verbatim>\<open>assert iend > istart\<close> emits one
  segment; in Case 1.1 it always completes; in Case 1.2 and Case 2 it completes exactly
  when \<open>istart + effective_block_size\<close> is not an index of the sequence or some token
  at an index in \<open>(istart, istart + effective_block_size]\<close> decodes to a string that
  starts with a space; when no case is printed (a closing tag with no opening one before
  it) it does not complete. An iteration that does not complete ends the run with an
  exception.
\<close>

lemma cursor_increases:
  "(\<forall>em istart' add_prefix'.
       chunk_step p tk text_ids istart add_prefix = Next em istart' add_prefix'
       \<longrightarrow> istart < istart')
   \<and> sorted_wrt (<) (map cursor (fst (chunk_loop p tk text_ids istart add_prefix)))
   \<and> (\<not> cut_around_turns p \<and> step_emitted (chunk_step p tk text_ids istart add_prefix) \<noteq> []
        \<longrightarrow> completes (chunk_step p tk text_ids istart add_prefix))
   \<and> (cut_around_turns p \<and> length add_prefix < effective_block_size p \<longrightarrow>
        (\<exists>em. step_emitted (chunk_step p tk text_ids istart add_prefix) = [em]
           \<and> (printed em = Some Case_1_1
                \<longrightarrow> completes (chunk_step p tk text_ids istart add_prefix))
           \<and> (printed em = Some Case_1_2 \<or> printed em = Some Case_2 \<longrightarrow>
                (completes (chunk_step p tk text_ids istart add_prefix) \<longleftrightarrow>
                   length text_ids \<le> istart + effective_block_size p
                   \<or> (\<exists>j. istart < j \<and> j \<le> istart + effective_block_size p
                          \<and> startswith_space (decode tk [text_ids ! j]))))
           \<and> (printed em = None
                \<longrightarrow> \<not> completes (chunk_step p tk text_ids istart add_prefix))))"
proof (intro conjI allI impI)
  fix em istart' add_prefix'
  assume "chunk_step p tk text_ids istart add_prefix = Next em istart' add_prefix'"
  then show "istart < istart'" by (rule step_Next_greater)
next
  show "sorted_wrt (<) (map cursor (fst (chunk_loop p tk text_ids istart add_prefix)))"
    by (rule loop_cursor_sorted)
next
  assume "\<not> cut_around_turns p \<and> step_emitted (chunk_step p tk text_ids istart add_prefix) \<noteq> []"
  then show "completes (chunk_step p tk text_ids istart add_prefix)"
    by (auto simp: chunk_step_alt Let_def split: if_splits)
next
  assume a: "cut_around_turns p \<and> length add_prefix < effective_block_size p"
  then have h: "cut_around_turns p" "length add_prefix < effective_block_size p"
    by simp_all
  then have pos: "0 < effective_block_size p" by simp
  define nc where "nc = next_cursor p tk text_ids istart
                     (istart + effective_block_size p - length add_prefix) add_prefix"
  from turn_step[OF h, of tk text_ids istart, folded nc_def] obtain em where
    em: "step_emitted (chunk_step p tk text_ids istart add_prefix) = [em]"
        "printed em = fst nc"
        "completes (chunk_step p tk text_ids istart add_prefix) \<longleftrightarrow>
           (\<exists>istart' add_prefix'. snd nc = Inr (istart', add_prefix') \<and> int istart < istart')"
    by blast
  have c11: "printed em = Some Case_1_1 \<longrightarrow> completes (chunk_step p tk text_ids istart add_prefix)"
  proof
    assume "printed em = Some Case_1_1"
    with em(2) have "fst nc = Some Case_1_1" by simp
    from next_cursor_Case_1_1[OF this[unfolded nc_def], folded nc_def]
    obtain istart' where i: "snd nc = Inr (istart', [])" "int istart < istart'"
      by blast
    have "\<exists>istart' add_prefix'. snd nc = Inr (istart', add_prefix') \<and> int istart < istart'"
      by (rule exI[of _ istart'], rule exI[of _ "[]"]) (simp add: i)
    then show "completes (chunk_step p tk text_ids istart add_prefix)"
      by (rule iffD2[OF em(3)])
  qed
  have adv: "printed em = Some Case_1_2 \<or> printed em = Some Case_2 \<longrightarrow>
      (completes (chunk_step p tk text_ids istart add_prefix) \<longleftrightarrow>
         length text_ids \<le> istart + effective_block_size p
         \<or> (\<exists>j. istart < j \<and> j \<le> istart + effective_block_size p
                \<and> startswith_space (decode tk [text_ids ! j])))"
  proof
    assume "printed em = Some Case_1_2 \<or> printed em = Some Case_2"
    with em(2) have "fst nc = Some Case_1_2 \<or> fst nc = Some Case_2" by simp
    from next_cursor_advance[OF this[unfolded nc_def], folded nc_def]
    obtain add_prefix' where
      s: "snd nc = (case advance_block p tk text_ids istart of
              Inl e \<Rightarrow> Inl e | Inr istart' \<Rightarrow> Inr (istart', add_prefix'))"
      by blast
    note em(3)
    also have "(\<exists>istart' add_prefix'. snd nc = Inr (istart', add_prefix') \<and> int istart < istart')
        \<longleftrightarrow> (\<exists>k. advance_block p tk text_ids istart = Inr k \<and> int istart < k)"
      unfolding s by (cases "advance_block p tk text_ids istart") simp_all
    also have "\<dots> \<longleftrightarrow> length text_ids \<le> istart + effective_block_size p
         \<or> (\<exists>j. istart < j \<and> j \<le> istart + effective_block_size p
                \<and> startswith_space (decode tk [text_ids ! j]))"
      by (rule advance_block_iff[OF pos])
    finally show "completes (chunk_step p tk text_ids istart add_prefix) \<longleftrightarrow>
         length text_ids \<le> istart + effective_block_size p
         \<or> (\<exists>j. istart < j \<and> j \<le> istart + effective_block_size p
                \<and> startswith_space (decode tk [text_ids ! j]))" .
  qed
  have none: "printed em = None \<longrightarrow> \<not> completes (chunk_step p tk text_ids istart add_prefix)"
  proof
    assume "printed em = None"
    with em(2) have "fst nc = None" by simp
    from next_cursor_None[OF this[unfolded nc_def], folded nc_def]
    have "snd nc = Inl AssertionError" .
    then have "\<not> (\<exists>istart' add_prefix'. snd nc = Inr (istart', add_prefix') \<and> int istart < istart')"
      by simp
    then show "\<not> completes (chunk_step p tk text_ids istart add_prefix)"
      unfolding em(3) .
  qed
  show "\<exists>em. step_emitted (chunk_step p tk text_ids istart add_prefix) = [em]
           \<and> (printed em = Some Case_1_1
                \<longrightarrow> completes (chunk_step p tk text_ids istart add_prefix))
           \<and> (printed em = Some Case_1_2 \<or> printed em = Some Case_2 \<longrightarrow>
                (completes (chunk_step p tk text_ids istart add_prefix) \<longleftrightarrow>
                   length text_ids \<le> istart + effective_block_size p
                   \<or> (\<exists>j. istart < j \<and> j \<le> istart + effective_block_size p
                          \<and> startswith_space (decode tk [text_ids ! j]))))
           \<and> (printed em = None
                \<longrightarrow> \<not> completes (chunk_step p tk text_ids istart add_prefix))"
    by (rule exI[of _ em]) (intro conjI em(1) c11 adv none)
qed

text \<open>
  C4. The cursor does not strictly increase on every iteration, and the assertion that
  guards the loop fails: the walk back to a token that starts with a space has no lower
  bound. With the block size 4 and no tag in the text, the first iteration takes Case 2
  and walks back from index 4. When only the first token starts with a space the walk
  stops at index 0, where the iteration started. When only the last token does, the walk
  passes index 0, reads the tensor from its end and stops at the cursor -1. In both runs
  \<^verbatim>\<open>assert istart > previous_istart\<close> fails after the first segment. When no token
  starts with a space the walk leaves the tensor and IndexError is raised.
\<close>

theorem cursor_assertion_fails:
  "chunk_loop p_turn tk_single one_word_text 0 []
     = ([\<lparr>cursor = 0, carried = [], array = [5, 7, 7, 7], printed = Some Case_2\<rparr>],
        Some AssertionError)
   \<and> next_cursor p_turn tk_single one_word_text 0 4 [] = (Some Case_2, Inr (0, []))
   \<and> chunk_loop p_turn tk_single last_word_text 0 []
     = ([\<lparr>cursor = 0, carried = [], array = [7, 7, 7, 7], printed = Some Case_2\<rparr>],
        Some AssertionError)
   \<and> next_cursor p_turn tk_single last_word_text 0 4 [] = (Some Case_2, Inr (- 1, []))
   \<and> chunk_loop p_turn tk_single no_word_text 0 []
     = ([\<lparr>cursor = 0, carried = [], array = [7, 7, 7, 7], printed = Some Case_2\<rparr>],
        Some IndexError)
   \<and> next_cursor p_turn tk_single no_word_text 0 4 [] = (Some Case_2, Inl IndexError)"
  by code_simp

section \<open>Short tails and the reconstruction of the text\<close>

lemma naive_step:
  assumes "\<not> cut_around_turns p" and "0 < effective_block_size p"
  shows "chunk_step p tk text_ids istart [] =
     (if length (py_slice text_ids istart (istart + effective_block_size p)) \<le> 10
      then Done [] None
      else Next \<lparr>cursor = istart, carried = [],
                 array = padded p tk (py_slice text_ids istart (istart + effective_block_size p)),
                 printed = None\<rparr> (istart + effective_block_size p) [])"
  using assms by (simp add: chunk_step_alt Let_def)

lemma naive_loop_exact:
  assumes "\<not> cut_around_turns p" and "10 < effective_block_size p"
    and "add_prefix = []" and "istart \<le> length text_ids"
  shows "snd (chunk_loop p tk text_ids istart add_prefix) = None
       \<and> (\<forall>em\<in>set (fst (chunk_loop p tk text_ids istart add_prefix)). carried em = [])
       \<and> concat (map (content p text_ids) (fst (chunk_loop p tk text_ids istart add_prefix)))
           = take (length text_ids - istart
                    - short_tail (effective_block_size p) (length text_ids - istart))
                  (drop istart text_ids)"
  using assms
proof (induction p tk text_ids istart add_prefix rule: chunk_loop.induct)
  case (1 p tk text_ids istart add_prefix)
  define B where "B = effective_block_size p"
  define L where "L = length text_ids - istart"
  have B: "10 < B" "0 < B" using "1.prems" by (simp_all add: B_def)
  have pre: "add_prefix = []" using "1.prems" by simp
  have nst: "chunk_step p tk text_ids istart [] =
     (if length (py_slice text_ids istart (istart + B)) \<le> 10
      then Done [] None
      else Next \<lparr>cursor = istart, carried = [],
                 array = padded p tk (py_slice text_ids istart (istart + B)),
                 printed = None\<rparr> (istart + B) [])"
    unfolding B_def using "1.prems" by (intro naive_step) simp_all
  have len: "length (py_slice text_ids istart (istart + B)) = min B L"
    by (simp add: py_slice_length L_def)
  show ?case
  proof (cases "istart < length text_ids")
    case False
    with "1.prems" show ?thesis by (simp add: chunk_loop.simps)
  next
    case True
    show ?thesis
    proof (cases "min B L \<le> 10")
      case short: True
      with B have "L \<le> 10" "L < B" by simp_all
      then have "L mod B = L" by simp
      moreover from short True have "chunk_loop p tk text_ids istart [] = ([], None)"
        by (simp add: chunk_loop.simps nst len)
      ultimately show ?thesis
        using \<open>L \<le> 10\<close> unfolding pre
        by (simp add: L_def[symmetric] B_def[symmetric] short_tail_def)
    next
      case long: False
      define em where "em = \<lparr>cursor = istart, carried = [],
                 array = padded p tk (py_slice text_ids istart (istart + B)),
                 printed = None\<rparr>"
      from long have st: "chunk_step p tk text_ids istart add_prefix = Next em (istart + B) []"
        unfolding pre by (simp add: nst len em_def)
      have loop: "chunk_loop p tk text_ids istart add_prefix
           = (em # fst (chunk_loop p tk text_ids (istart + B) []),
              snd (chunk_loop p tk text_ids (istart + B) []))"
        using True st by (simp add: chunk_loop.simps Let_def)
      have cem: "content p text_ids em = take B (drop istart text_ids)"
        by (simp add: content_def em_def py_slice_def B_def)
      show ?thesis
      proof (cases "L \<le> B")
        case True
        then have "\<not> istart + B < length text_ids" by (simp add: L_def)
        then have rest: "chunk_loop p tk text_ids (istart + B) [] = ([], None)"
          by (simp add: chunk_loop.simps)
        from long True B have "10 < L" by simp
        have d: "L - short_tail B L = L"
        proof (cases "L = B")
          case True
          then show ?thesis by (simp add: short_tail_def)
        next
          case False
          with \<open>L \<le> B\<close> have "L mod B = L" by simp
          with \<open>10 < L\<close> show ?thesis by (simp add: short_tail_def)
        qed
        have "take B (drop istart text_ids) = take L (drop istart text_ids)"
          using True by (simp add: L_def)
        with loop rest cem d show ?thesis
          by (simp add: L_def[symmetric] B_def[symmetric] em_def)
      next
        case False
        then have le: "istart + B \<le> length text_ids" and BL: "B \<le> L" by (simp_all add: L_def)
        from "1.IH"[OF True st "1.prems"(1,2) refl le]
        have ih: "snd (chunk_loop p tk text_ids (istart + B) []) = None"
          "\<forall>em\<in>set (fst (chunk_loop p tk text_ids (istart + B) [])). carried em = []"
          "concat (map (content p text_ids) (fst (chunk_loop p tk text_ids (istart + B) [])))
           = take (length text_ids - (istart + B)
                    - short_tail B (length text_ids - (istart + B)))
                  (drop (istart + B) text_ids)"
          by (simp_all add: B_def)
        have LB: "length text_ids - (istart + B) = L - B" by (simp add: L_def)
        have m: "(L - B) mod B = L mod B" using BL by (simp add: le_mod_geq)
        define r where "r = short_tail B L"
        have r': "short_tail B (L - B) = r"
          by (simp add: short_tail_def r_def m)
        have rl: "r \<le> L - B"
        proof -
          have "L mod B \<le> L - B" using m mod_less_eq_dividend[of "L - B" B] by simp
          then show ?thesis by (simp add: r_def short_tail_def)
        qed
        have "take (L - r) (drop istart text_ids)
            = take B (drop istart text_ids) @ take (L - r - B) (drop B (drop istart text_ids))"
          using rl BL take_add[of B "L - r - B" "drop istart text_ids"] by simp
        also have "L - r - B = L - B - r" by simp
        also have "drop B (drop istart text_ids) = drop (istart + B) text_ids"
          by (simp add: add.commute)
        finally have "take (L - r) (drop istart text_ids)
            = take B (drop istart text_ids) @ take (L - B - r) (drop (istart + B) text_ids)" .
        with loop cem ih show ?thesis
          unfolding LB r' by (simp add: L_def[symmetric] B_def[symmetric] r_def[symmetric] em_def)
      qed
    qed
  qed
qed


lemma turn_loop_emits:
  assumes "cut_around_turns p" and "length add_prefix < effective_block_size p"
    and "istart < length text_ids"
  shows "\<exists>em rest err. chunk_loop p tk text_ids istart add_prefix = (em # rest, err)
           \<and> array em = padded p tk (add_prefix
                 @ py_slice text_ids istart (istart + effective_block_size p - length add_prefix))"
proof -
  from turn_step[OF assms(1,2), of tk text_ids istart] obtain em where
    em: "step_emitted (chunk_step p tk text_ids istart add_prefix) = [em]" by blast
  then have "em \<in> set (step_emitted (chunk_step p tk text_ids istart add_prefix))" by simp
  from step_emitted_shape[OF this]
  have arr: "array em = padded p tk (add_prefix
                 @ py_slice text_ids istart (istart + effective_block_size p - length add_prefix))"
    by (simp add: content_def)
  show ?thesis
  proof (cases "chunk_step p tk text_ids istart add_prefix")
    case (Done ems err)
    with em assms(3) have "chunk_loop p tk text_ids istart add_prefix = (em # [], err)"
      by (simp add: chunk_loop.simps)
    with arr show ?thesis by blast
  next
    case (Next em' istart' add_prefix')
    with em assms(3) have "chunk_loop p tk text_ids istart add_prefix
        = (em # fst (chunk_loop p tk text_ids istart' add_prefix'),
           snd (chunk_loop p tk text_ids istart' add_prefix'))"
      by (simp add: chunk_loop.simps Let_def)
    with arr show ?thesis by blast
  qed
qed

lemma naive_short_fragment:
  assumes "\<not> cut_around_turns p" and "0 < effective_block_size p"
    and "istart < length text_ids" and "length text_ids - istart \<le> 10"
  shows "chunk_loop p tk text_ids istart [] = ([], None)"
proof -
  have "length (py_slice text_ids istart (istart + effective_block_size p)) \<le> 10"
    using assms(4) by (simp add: py_slice_length)
  with naive_step[OF assms(1,2), of tk text_ids istart]
  have "chunk_step p tk text_ids istart [] = Done [] None" by simp
  with assms(3) show ?thesis by (simp add: chunk_loop.simps)
qed

lemma naive_arrays:
  assumes "\<not> cut_around_turns p" and "10 < effective_block_size p"
  shows "map array (fst (chunk_loop p tk text_ids 0 []))
       = map (\<lambda>em. padded p tk (content p text_ids em)) (fst (chunk_loop p tk text_ids 0 []))"
proof (rule map_cong[OF refl])
  fix em assume em: "em \<in> set (fst (chunk_loop p tk text_ids 0 []))"
  from naive_loop_exact[OF assms refl, of 0 text_ids tk] em have "carried em = []" by simp
  with loop_emitted_shape[OF em] show "array em = padded p tk (content p text_ids em)"
    by simp
qed

text \<open>
  Short fragments. With turn-aware cutting disabled (and a block size above 10, on a text longer than
  a block) the run raises nothing, the arrays emitted are the padded contents, and the
  contents put end to end are the text without its final fragment when that fragment
  has 10 tokens or fewer, and the whole text otherwise: the short final fragment is
  neither padded nor emitted. At the fragment itself, an iteration that finds 10 tokens
  or fewer left emits nothing and ends the loop with no error. With turn-aware cutting
  enabled there is no such floor: an iteration that passes
  \<^verbatim>\<open>assert iend > istart\<close> emits its segment whatever its length.
\<close>

lemma short_tail_policy:
  "(\<not> cut_around_turns p \<and> 10 < effective_block_size p
      \<and> effective_block_size p < length text_ids \<longrightarrow>
        chunk_text p tk text_ids
          = (map (\<lambda>em. padded p tk (content p text_ids em)) (fst (chunk_loop p tk text_ids 0 [])),
             None)
      \<and> concat (map (content p text_ids) (fst (chunk_loop p tk text_ids 0 [])))
          = take (length text_ids - short_tail (effective_block_size p) (length text_ids))
                 text_ids)
   \<and> (\<not> cut_around_turns p \<and> 0 < effective_block_size p \<and> istart < length text_ids
      \<and> length text_ids - istart \<le> 10 \<longrightarrow>
        chunk_loop p tk text_ids istart [] = ([], None))
   \<and> (cut_around_turns p \<and> length add_prefix < effective_block_size p
      \<and> istart < length text_ids \<longrightarrow>
        (\<exists>em rest err. chunk_loop p tk text_ids istart add_prefix = (em # rest, err)
           \<and> array em = padded p tk (add_prefix
                 @ py_slice text_ids istart
                     (istart + effective_block_size p - length add_prefix))))"
proof (intro conjI impI)
  assume a: "\<not> cut_around_turns p \<and> 10 < effective_block_size p
      \<and> effective_block_size p < length text_ids"
  then have h: "\<not> cut_around_turns p" "10 < effective_block_size p" by simp_all
  from naive_loop_exact[OF h refl, of 0 text_ids tk]
  have e: "snd (chunk_loop p tk text_ids 0 []) = None"
    "concat (map (content p text_ids) (fst (chunk_loop p tk text_ids 0 [])))
          = take (length text_ids - short_tail (effective_block_size p) (length text_ids))
                 text_ids"
    by simp_all
  from a e(1) naive_arrays[OF h, of tk text_ids]
  show "chunk_text p tk text_ids
          = (map (\<lambda>em. padded p tk (content p text_ids em)) (fst (chunk_loop p tk text_ids 0 [])),
             None)"
    by (simp add: chunk_text_def Let_def)
  from e(2) show "concat (map (content p text_ids) (fst (chunk_loop p tk text_ids 0 [])))
          = take (length text_ids - short_tail (effective_block_size p) (length text_ids))
                 text_ids" .
next
  assume "\<not> cut_around_turns p \<and> 0 < effective_block_size p \<and> istart < length text_ids
      \<and> length text_ids - istart \<le> 10"
  then show "chunk_loop p tk text_ids istart [] = ([], None)"
    by (intro naive_short_fragment) simp_all
next
  assume "cut_around_turns p \<and> length add_prefix < effective_block_size p
      \<and> istart < length text_ids"
  then show "\<exists>em rest err. chunk_loop p tk text_ids istart add_prefix = (em # rest, err)
           \<and> array em = padded p tk (add_prefix
                 @ py_slice text_ids istart
                     (istart + effective_block_size p - length add_prefix))"
    by (intro turn_loop_emits) simp_all
qed

text \<open>
  C6. With turn-aware cutting enabled a short final fragment is not always emitted. In
  the run below (block size 4) the first iteration carries the two tokens of the tag, so
  the second iteration emits the carried tag and the window \<open>[4, 6)\<close> of the text; no
  closing tag lies ahead, Case 2 advances the cursor by the whole block size to 8, past
  the end of the text, and the loop ends with no error: the final token 25, at index 6,
  is in no emitted segment. With turn-aware cutting disabled the final fragment of two
  tokens of the second run is dropped, as the claim says.
\<close>

theorem final_fragment_skipped:
  "chunk_text p_turn tk_single carried_tail_text
     = ([[91, 93, 21, 22], [91, 93, 23, 24]], None)
   \<and> map (\<lambda>em. (cursor em, carried em, content p_turn carried_tail_text em, printed em))
         (fst (chunk_loop p_turn tk_single carried_tail_text 0 []))
       = [(0, [], [91, 93, 21, 22], Some Case_1_2), (4, [91, 93], [23, 24], Some Case_2)]
   \<and> next_cursor p_turn tk_single carried_tail_text 4 6 [91, 93]
       = (Some Case_2, Inr (8, [91, 93]))
   \<and> carried_tail_text ! 6 = 25
   \<and> 25 \<notin> set (concat (fst (chunk_text p_turn tk_single carried_tail_text)))
   \<and> chunk_text p_naive tk_single plain_text
       = ([[21, 22, 23, 24, 25, 26, 27, 28, 29, 30, 31, 32]], None)"
  by code_simp

text \<open>
  C1, as amended. With turn-aware cutting disabled (block size above 10, text longer
  than a block) no segment carries a prefix, no exception is raised, and the contents of
  the emitted segments put end to end are a prefix of the text that misses at most its
  last 10 tokens, the short tail that is dropped. In both modes every emitted array is
  its carried prefix followed by its content, the slice of the text at its cursor, then
  padded; the cursors strictly increase, and the first segment starts at index 0 with no
  carried prefix. Whether the slices of a run with turn-aware cutting cover the text is
  left open here.
\<close>

theorem content_reconstruction:
  "(\<not> cut_around_turns p \<and> 10 < effective_block_size p
      \<and> effective_block_size p < length text_ids \<longrightarrow>
        snd (chunk_loop p tk text_ids 0 []) = None
      \<and> (\<forall>em\<in>set (fst (chunk_loop p tk text_ids 0 [])). carried em = [])
      \<and> prefix (concat (map (content p text_ids) (fst (chunk_loop p tk text_ids 0 []))))
               text_ids
      \<and> length text_ids
          - length (concat (map (content p text_ids) (fst (chunk_loop p tk text_ids 0 []))))
          \<le> 10)
   \<and> (\<forall>em\<in>set (fst (chunk_loop p tk text_ids 0 [])).
         array em = padded p tk (carried em @ content p text_ids em))
   \<and> sorted_wrt (<) (map cursor (fst (chunk_loop p tk text_ids 0 [])))
   \<and> (\<forall>em rest. fst (chunk_loop p tk text_ids 0 []) = em # rest
         \<longrightarrow> cursor em = 0 \<and> carried em = [])"
proof -
  have naive: "snd (chunk_loop p tk text_ids 0 []) = None
      \<and> (\<forall>em\<in>set (fst (chunk_loop p tk text_ids 0 [])). carried em = [])
      \<and> prefix (concat (map (content p text_ids) (fst (chunk_loop p tk text_ids 0 []))))
               text_ids
      \<and> length text_ids
          - length (concat (map (content p text_ids) (fst (chunk_loop p tk text_ids 0 []))))
          \<le> 10"
    if a: "\<not> cut_around_turns p \<and> 10 < effective_block_size p
      \<and> effective_block_size p < length text_ids"
  proof -
    from a have h: "\<not> cut_around_turns p" "10 < effective_block_size p" by simp_all
    define cs where "cs = concat (map (content p text_ids) (fst (chunk_loop p tk text_ids 0 [])))"
    from naive_loop_exact[OF h refl, of 0 text_ids tk]
    have e: "snd (chunk_loop p tk text_ids 0 []) = None"
      "\<forall>em\<in>set (fst (chunk_loop p tk text_ids 0 [])). carried em = []"
      "cs = take (length text_ids - short_tail (effective_block_size p) (length text_ids)) text_ids"
      by (simp_all add: cs_def)
    have p1: "prefix cs text_ids"
      unfolding e(3) by (rule take_is_prefix)
    have "short_tail (effective_block_size p) (length text_ids) \<le> 10"
      by (simp add: short_tail_def)
    then have p2: "length text_ids - length cs \<le> 10"
      unfolding e(3) by simp
    from e(1,2) p1 p2 show ?thesis
      unfolding cs_def by blast
  qed
  have shape: "\<forall>em\<in>set (fst (chunk_loop p tk text_ids 0 [])).
         array em = padded p tk (carried em @ content p text_ids em)"
    using loop_emitted_shape by blast
  have first: "\<forall>em rest. fst (chunk_loop p tk text_ids 0 []) = em # rest
         \<longrightarrow> cursor em = 0 \<and> carried em = []"
  proof (intro allI impI)
    fix em rest assume f: "fst (chunk_loop p tk text_ids 0 []) = em # rest"
    have "em \<in> set (step_emitted (chunk_step p tk text_ids 0 []))"
    proof (cases "0 < length text_ids")
      case False
      with f show ?thesis by (simp add: chunk_loop.simps)
    next
      case True
      with f show ?thesis
        by (cases "chunk_step p tk text_ids 0 []") (auto simp: chunk_loop.simps Let_def)
    qed
    from step_emitted_shape[OF this] show "cursor em = 0 \<and> carried em = []" by simp
  qed
  from naive shape first loop_cursor_sorted[of p tk text_ids 0 "[]"] show ?thesis
    by blast
qed

theorem content_reconstruction_witness:
  "\<not> cut_around_turns p_naive \<and> 10 < effective_block_size p_naive
   \<and> effective_block_size p_naive < length plain_text
   \<and> concat (map (content p_naive plain_text) (fst (chunk_loop p_naive tk_single plain_text 0 [])))
       = [21, 22, 23, 24, 25, 26, 27, 28, 29, 30, 31, 32]
   \<and> prefix (concat (map (content p_naive plain_text)
                 (fst (chunk_loop p_naive tk_single plain_text 0 [])))) plain_text"
proof -
  have h: "\<not> cut_around_turns p_naive \<and> 10 < effective_block_size p_naive
      \<and> effective_block_size p_naive < length plain_text"
    by (simp add: p_naive_def plain_text_def)
  have c: "concat (map (content p_naive plain_text) (fst (chunk_loop p_naive tk_single plain_text 0 [])))
       = [21, 22, 23, 24, 25, 26, 27, 28, 29, 30, 31, 32]"
    by code_simp
  from content_reconstruction[of p_naive plain_text tk_single] h c show ?thesis
    by blast
qed

text \<open>
  C1 as stated fails: of the fourteen tokens of the text below, longer than the block
  size 12, the last two are in no emitted segment.
\<close>

theorem content_reconstruction_counterexample:
  "effective_block_size p_naive < length plain_text
   \<and> chunk_text p_naive tk_single plain_text
       = ([[21, 22, 23, 24, 25, 26, 27, 28, 29, 30, 31, 32]], None)
   \<and> map (content p_naive plain_text) (fst (chunk_loop p_naive tk_single plain_text 0 []))
       = [[21, 22, 23, 24, 25, 26, 27, 28, 29, 30, 31, 32]]
   \<and> plain_text ! 12 = 33
   \<and> 33 \<notin> set (concat (fst (chunk_text p_naive tk_single plain_text)))"
  by code_simp

text \<open>
  Two runs with turn-aware cutting whose slices leave tokens out. In the first the tag
  lies wholly in the ten tokens of lookahead behind the window \<open>[0, 4)\<close>, and Case 1.1
  moves the cursor to 6: the tokens at the indices 4 and 5 are skipped. In the second the
  iterations at the cursors 4 and 8 carry two tokens, so their windows hold two tokens
  of the text, while Case 2 advances the cursor by the whole block size.
\<close>

lemma turn_gap_example:
  "chunk_text p_turn tk_single two_turn_text = ([[10, 11, 12, 13], [91, 93, 16, 0]], None)
   \<and> map (\<lambda>em. (cursor em, carried em, content p_turn two_turn_text em, printed em))
         (fst (chunk_loop p_turn tk_single two_turn_text 0 []))
       = [(0, [], [10, 11, 12, 13], Some Case_1_1), (6, [], [91, 93, 16], Some Case_1_2)]
   \<and> two_turn_text ! 4 = 14
   \<and> 14 \<notin> set (concat (fst (chunk_text p_turn tk_single two_turn_text)))"
  by code_simp

lemma carried_gap_example:
  "map (\<lambda>em. (cursor em, carried em, content p_turn tagged_text em))
       (fst (chunk_loop p_turn tk_single tagged_text 0 []))
     = [(0, [], [91, 93, 5, 5]), (4, [91, 93], [5, 5]),
        (8, [91, 93], [5, 5]), (16, [], [91, 93, 5, 5])]
   \<and> snd (chunk_loop p_turn tk_single tagged_text 0 []) = None"
  by code_simp

section \<open>The variants of the augmentation generator\<close>

lemma emit_variants_props:
  "set (emit_variants budget seen cs) \<subseteq> set cs - set seen
   \<and> distinct (emit_variants budget seen cs)
   \<and> length (emit_variants budget seen cs)
       = (case budget of None \<Rightarrow> card (set cs - set seen)
          | Some n \<Rightarrow> min n (card (set cs - set seen)))"
proof (induction cs arbitrary: budget seen)
  case Nil
  show ?case by (simp split: option.splits)
next
  case (Cons c cs)
  show ?case
  proof (cases "budget = Some 0")
    case True
    then show ?thesis by simp
  next
    case nz: False
    show ?thesis
    proof (cases "c \<in> set seen")
      case True
      then have eq: "set (c # cs) - set seen = set cs - set seen" by auto
      have e: "emit_variants budget seen (c # cs) = emit_variants budget seen cs"
        using nz True by simp
      show ?thesis unfolding e eq by (rule Cons.IH)
    next
      case False
      define b' where "b' = map_option (\<lambda>n. n - 1) budget"
      have e: "emit_variants budget seen (c # cs) = c # emit_variants b' (seen @ [c]) cs"
        using nz False by (simp add: b'_def)
      have s: "set (c # cs) - set seen = insert c (set cs - set (seen @ [c]))"
        using False by auto
      have c: "card (set (c # cs) - set seen) = Suc (card (set cs - set (seen @ [c])))"
        unfolding s by (rule card_insert_disjoint) auto
      from Cons.IH[of b' "seen @ [c]"]
      have ih: "set (emit_variants b' (seen @ [c]) cs) \<subseteq> set cs - set (seen @ [c])"
        "distinct (emit_variants b' (seen @ [c]) cs)"
        "length (emit_variants b' (seen @ [c]) cs)
           = (case b' of None \<Rightarrow> card (set cs - set (seen @ [c]))
              | Some n \<Rightarrow> min n (card (set cs - set (seen @ [c]))))"
        by simp_all
      have p1: "set (emit_variants budget seen (c # cs)) \<subseteq> set (c # cs) - set seen"
        unfolding e using ih(1) False by auto
      have p2: "distinct (emit_variants budget seen (c # cs))"
        unfolding e using ih(1,2) by auto
      have p3: "length (emit_variants budget seen (c # cs))
           = (case budget of None \<Rightarrow> card (set (c # cs) - set seen)
              | Some n \<Rightarrow> min n (card (set (c # cs) - set seen)))"
      proof (cases budget)
        case None
        then show ?thesis unfolding e c using ih(3) by (simp add: b'_def)
      next
        case (Some n)
        with nz have "0 < n" by simp
        with Some show ?thesis unfolding e c using ih(3) by (simp add: b'_def)
      qed
      from p1 p2 p3 show ?thesis by blast
    qed
  qed
qed

lemma card_candidates:
  "card (set (normalize_text aug text # transformations aug text) - set [])
     = maximum_variants aug text + 1"
proof -
  define A where "A = set (transformations aug text) - {normalize_text aug text}"
  have "set (normalize_text aug text # transformations aug text) - set []
      = insert (normalize_text aug text) A"
    by (auto simp: A_def)
  moreover have "card (insert (normalize_text aug text) A) = Suc (card A)"
    by (rule card_insert_disjoint) (simp_all add: A_def)
  ultimately show ?thesis by (simp add: maximum_variants_def A_def)
qed

lemma emit_variants_first:
  "budget \<noteq> Some 0 \<Longrightarrow> emit_variants budget [] (c # cs) ! 0 = c"
  by simp

text \<open>
  C2, on the generator as modelled from the spec. For every text and every level
  \<open>l \<ge> 0\<close> the generator returns a list of \<open>min (M + 1) (l + 1)\<close> strings, where
  \<open>M\<close> is the maximum distinct-variant count of the text; the strings are pairwise
  distinct, and the one at position 0 is the canonical level-0 normalization.
\<close>

theorem generate_count:
  assumes "0 \<le> l"
  shows "\<exists>vs. generate aug text (Some l) = Inr vs
           \<and> length vs = min (maximum_variants aug text + 1) (nat l + 1)
           \<and> distinct vs
           \<and> vs ! 0 = normalize_text aug text"
proof -
  define vs where "vs = emit_variants (Some (nat l + 1)) []
                      (normalize_text aug text # transformations aug text)"
  from assms have g: "generate aug text (Some l) = Inr vs"
    by (simp add: generate_def vs_def)
  from emit_variants_props[of "Some (nat l + 1)" "[]" "normalize_text aug text # transformations aug text"]
  have "distinct vs"
    and "length vs = min (nat l + 1)
           (card (set (normalize_text aug text # transformations aug text) - set []))"
    by (simp_all add: vs_def)
  then have d: "distinct vs"
    and len: "length vs = min (maximum_variants aug text + 1) (nat l + 1)"
    unfolding card_candidates by (simp_all add: min.commute)
  have "vs ! 0 = normalize_text aug text"
    unfolding vs_def by (rule emit_variants_first) simp
  with g d len show ?thesis by blast
qed

theorem generate_count_witness:
  "(0 :: int) \<le> 3
   \<and> generate aug_example ''Ah'' (Some 3) = Inr [''[Intervenant 1:] Ah'', ''[A:] Ah'']
   \<and> generate aug_example ''Ah'' (Some 0) = Inr [''[Intervenant 1:] Ah'']
   \<and> normalize_text aug_example ''Ah'' = ''[Intervenant 1:] Ah''"
proof -
  have h: "(0 :: int) \<le> 3" by simp
  have a: "generate aug_example ''Ah'' (Some 3) = Inr [''[Intervenant 1:] Ah'', ''[A:] Ah'']"
    by code_simp
  have b: "generate aug_example ''Ah'' (Some 0) = Inr [''[Intervenant 1:] Ah'']"
    by code_simp
  have c: "normalize_text aug_example ''Ah'' = ''[Intervenant 1:] Ah''"
    by code_simp
  from generate_count[OF h, of aug_example "''Ah''"] h a b c show ?thesis
    by blast
qed

end
